theory Spec2Isabelle
  imports Main "HOL-Library.Word" "HOL-Library.List_Lexorder" "HOL-Library.Sublist"
begin

unbundle bit_operations_syntax

section \<open>Bytes, machine integers and errors\<close>

text \<open>
  Go's \<open>byte\<close>, \<open>uint64\<close> and \<open>int64\<close> are fixed-width words. An \<open>int64\<close> is the same
  64 bits as a \<open>uint64\<close>, read with \<open>sint\<close>; the conversions \<open>int64(x)\<close> and
  \<open>uint64(x)\<close> of the source keep the bits, so they are the identity on \<open>64 word\<close>.
\<close>

type_synonym byte = "8 word"
type_synonym bytes = "byte list"
type_synonym uint64 = "64 word"
type_synonym int64 = "64 word"

datatype error =
    EOF
  | ErrUnexpectedEOF
  | ErrOverflow
  | ErrInvalidOffset
  | ErrNotFound
  | InvalidFrame
  | InvalidHeader
  | NotCarV2
  | DuplicateKey
  | ErrNoSuchFile
  | ErrWrite
  | ErrReadingCarHeader error

text \<open>A Go call either returns its results or panics (a nil interface method call).\<close>

datatype 'a outcome = Returns 'a | Panics

section \<open>Reading from an \<open>io.ReaderAt\<close>\<close>

text \<open>
  Modelled from the spec: \<open>OffsetReader\<close> of package \<open>internal/io\<close> is not among the
  sources. The spec (3, 6) has the backing of a store as a \<open>ReaderAt\<close>, a random-access
  source of immutable bytes; it is modelled as the byte list itself, and the
  \<open>OffsetReader\<close> as a cursor on it: \<open>ReadByte\<close> reads at the cursor and advances it.
  As for Go's \<open>bytes.Reader\<close> and \<open>mmap.ReaderAt\<close>, a negative offset is refused and an
  offset at or past the end is \<open>io.EOF\<close>.
\<close>

definition ReadByte :: "bytes \<Rightarrow> int64 \<Rightarrow> (error + byte) \<times> int64" where
  "ReadByte r off =
     (if sint off < 0 then (Inl ErrInvalidOffset, off)
      else if int (length r) \<le> sint off then (Inl EOF, off)
      else (Inr (r ! nat (sint off)), off + 1))"

text \<open>\<open>io.ReadFull\<close> of \<open>n\<close> bytes at the cursor.\<close>

definition ReadFull :: "bytes \<Rightarrow> int64 \<Rightarrow> nat \<Rightarrow> (error + bytes) \<times> int64" where
  "ReadFull r off n =
     (if n = 0 then (Inr [], off)
      else if sint off < 0 then (Inl ErrInvalidOffset, off)
      else if int (length r) \<le> sint off then (Inl EOF, off)
      else if length r < nat (sint off) + n then (Inl ErrUnexpectedEOF, off)
      else (Inr (take n (drop (nat (sint off)) r)), off + of_nat n))"

text \<open>
  Go's \<open>encoding/binary.ReadUvarint\<close> (an \<open>io.EOF\<close> after the first byte is
  \<open>io.ErrUnexpectedEOF\<close>, as in the current standard library): at most \<open>MaxVarintLen64 = 10\<close> bytes, seven bits
  each, least significant group first; \<open>x\<close> accumulates the value, \<open>s\<close> is the shift and
  \<open>i\<close> the number of bytes read so far. The cursor is returned with the result, since
  the callers ask the reader for its offset afterwards.
\<close>

function uvarint_loop ::
  "bytes \<Rightarrow> int64 \<Rightarrow> nat \<Rightarrow> uint64 \<Rightarrow> nat \<Rightarrow> (error + uint64) \<times> int64" where
  "uvarint_loop r off i x s =
     (if 10 \<le> i then (Inl ErrOverflow, off)
      else case ReadByte r off of
        (Inl err, off') \<Rightarrow>
          (Inl (if 0 < i \<and> err = EOF then ErrUnexpectedEOF else err), off')
      | (Inr b, off') \<Rightarrow>
          if b < 0x80 then
            (if i = 9 \<and> 1 < b then (Inl ErrOverflow, off')
             else (Inr (x OR push_bit s (ucast b)), off'))
          else uvarint_loop r off' (i + 1) (x OR push_bit s (ucast (b AND 0x7f))) (s + 7))"
  by pat_completeness auto
termination
  by (relation "measure (\<lambda>(r, off, i, x, s). 10 - i)") auto

declare uvarint_loop.simps [simp del]

definition ReadUvarint :: "bytes \<Rightarrow> int64 \<Rightarrow> (error + uint64) \<times> int64" where
  "ReadUvarint r off = uvarint_loop r off 0 0 0"

section \<open>CIDs and CARv1 frames\<close>

text \<open>
  A CID is kept as its parsed fields; two CIDs are equal when their fields are
  (\<open>Cid.Equals\<close>). The multihash digest is the index key.
\<close>

datatype Cid = Cid (version: uint64) (codec: uint64) (mh_code: uint64) (digest: bytes)

text \<open>
  Modelled from the spec: \<open>ReadCid\<close> of package \<open>internal/io\<close> is not among the sources.
  The spec (4.1) has a CID parsed by reading the version varint, the codec varint, the
  multihash-code varint, the digest-length varint and then digest-length bytes, returning
  the CID and the number of bytes consumed.
\<close>

definition ReadCid :: "bytes \<Rightarrow> int64 \<Rightarrow> error + (Cid \<times> int)" where
  "ReadCid store at =
     (case ReadUvarint store at of
        (Inl err, _) \<Rightarrow> Inl err
      | (Inr vers, o1) \<Rightarrow>
     (case ReadUvarint store o1 of
        (Inl err, _) \<Rightarrow> Inl err
      | (Inr cdc, o2) \<Rightarrow>
     (case ReadUvarint store o2 of
        (Inl err, _) \<Rightarrow> Inl err
      | (Inr code, o3) \<Rightarrow>
     (case ReadUvarint store o3 of
        (Inl err, _) \<Rightarrow> Inl err
      | (Inr dlen, o4) \<Rightarrow>
     (case ReadFull store o4 (unat dlen) of
        (Inl err, _) \<Rightarrow> Inl err
      | (Inr dg, o5) \<Rightarrow> Inr (Cid vers cdc code dg, sint (o5 - at)))))))"

text \<open>
  Modelled from the spec: \<open>util.ReadNode\<close> of package \<open>internal/carv1/util\<close> is not among
  the sources. The spec (4.2) defines \<open>read_frame\<close>: read the varint \<open>L\<close>; let \<open>p\<close> be the
  position after it; read the CID at \<open>p\<close>, consuming \<open>c\<close> bytes; the payload is the next
  \<open>L - c\<close> bytes; the next offset is \<open>p + L\<close>. A frame length inconsistent with the CID
  bytes is \<open>InvalidFrame\<close> (7).
\<close>

definition read_frame :: "bytes \<Rightarrow> int64 \<Rightarrow> error + (Cid \<times> bytes \<times> int64)" where
  "read_frame r off =
     (case ReadUvarint r off of
        (Inl err, _) \<Rightarrow> Inl err
      | (Inr l, p) \<Rightarrow>
     (case ReadCid r p of
        Inl err \<Rightarrow> Inl err
      | Inr (c, k) \<Rightarrow>
          if k < 0 \<or> int (unat l) < k then Inl InvalidFrame
          else (case ReadFull r (p + of_int k) (unat l - nat k) of
                  (Inl err, _) \<Rightarrow> Inl err
                | (Inr payload, _) \<Rightarrow> Inr (c, payload, p + l))))"

definition ReadNode :: "bytes \<Rightarrow> int64 \<Rightarrow> error + (Cid \<times> bytes)" where
  "ReadNode r off =
     (case read_frame r off of Inl err \<Rightarrow> Inl err | Inr (c, payload, _) \<Rightarrow> Inr (c, payload))"

section \<open>The read-only block store\<close>

text \<open>
  \<open>index.Index\<close> is an interface; the store only calls its \<open>Get\<close> method, so an index
  value is that method. The interface field of a store may be nil.
\<close>

type_synonym Index = "Cid \<Rightarrow> error + uint64"

record ReadOnly =
  backing :: bytes
  idx :: "Index option"

datatype Block = Block (RawData: bytes) (BlockCid: Cid)

definition ReadOnlyOf :: "bytes \<Rightarrow> Index \<Rightarrow> ReadOnly" where
  "ReadOnlyOf b i = \<lparr>backing = b, idx = Some i\<rparr>"

definition readBlock :: "ReadOnly \<Rightarrow> int64 \<Rightarrow> error + (Cid \<times> bytes)" where
  "readBlock b i = ReadNode (backing b) i"

text \<open>
  \<open>blocks.NewBlockWithCid\<close> checks the hash of the data only in debug mode; the store
  does not validate hashes, so it always yields the block.
\<close>

definition NewBlockWithCid :: "bytes \<Rightarrow> Cid \<Rightarrow> error + Block" where
  "NewBlockWithCid data c = Inr (Block data c)"

definition Has :: "ReadOnly \<Rightarrow> Cid \<Rightarrow> (bool \<times> error option) outcome" where
  "Has b key =
     (case idx b of
        None \<Rightarrow> Panics
      | Some i \<Rightarrow> Returns
         (case i key of
            Inl err \<Rightarrow> (False, Some err)
          | Inr offset \<Rightarrow>
         (case ReadUvarint (backing b) offset of
            (Inl err, _) \<Rightarrow> (False, Some err)
          | (Inr _, uar) \<Rightarrow>
         (case ReadCid (backing b) uar of
            Inl err \<Rightarrow> (False, Some err)
          | Inr (c, _) \<Rightarrow> (c = key, None)))))"

definition Get :: "ReadOnly \<Rightarrow> Cid \<Rightarrow> (error + Block) outcome" where
  "Get b key =
     (case idx b of
        None \<Rightarrow> Panics
      | Some i \<Rightarrow> Returns
         (case i key of
            Inl err \<Rightarrow> Inl err
          | Inr offset \<Rightarrow>
         (case readBlock b offset of
            Inl err \<Rightarrow> Inl ErrNotFound
          | Inr (entry, data) \<Rightarrow>
              if entry \<noteq> key then Inl ErrNotFound
              else NewBlockWithCid data key)))"

definition GetSize :: "ReadOnly \<Rightarrow> Cid \<Rightarrow> (int \<times> error option) outcome" where
  "GetSize b key =
     (case idx b of
        None \<Rightarrow> Panics
      | Some i \<Rightarrow> Returns
         (case i key of
            Inl err \<Rightarrow> (- 1, Some err)
          | Inr ix \<Rightarrow>
         (case ReadUvarint (backing b) ix of
            (Inl err, _) \<Rightarrow> (- 1, Some ErrNotFound)
          | (Inr l, _) \<Rightarrow>
         (case ReadCid (backing b) (ix + l) of
            Inl err \<Rightarrow> (0, Some err)
          | Inr (c, _) \<Rightarrow>
              if c \<noteq> key then (- 1, Some ErrNotFound)
              else (sint l, None)))))"

section \<open>The sorted index\<close>

text \<open>
  Modelled from the spec: the index implementation (\<open>mkSorted\<close>, \<open>Load\<close>, \<open>Get\<close>) is not
  among the sources. The spec (4.3) groups the records by the byte length of their
  multihash digest, keeps each group as an array of (digest, offset) sorted ascending by
  digest (lexicographic bytes), makes a duplicate digest during \<open>load\<close> a \<open>DuplicateKey\<close>
  error, and looks a CID up by finding the bucket of its digest width and binary-searching
  the digest, answering the offset or \<open>NotFound\<close>. Buckets are kept in ascending width.
\<close>

type_synonym Record = "Cid \<times> uint64"
type_synonym bucket = "(bytes \<times> uint64) list"
type_synonym SortedIndex = "(nat \<times> bucket) list"

definition mkSorted :: SortedIndex where
  "mkSorted = []"

definition bucket_of :: "Record list \<Rightarrow> nat \<Rightarrow> bucket" where
  "bucket_of records w =
     sort_key fst (map (\<lambda>(c, off). (digest c, off))
                       (filter (\<lambda>(c, off). length (digest c) = w) records))"

definition Load :: "SortedIndex \<Rightarrow> Record list \<Rightarrow> error + SortedIndex" where
  "Load ix records =
     (let widths = sort (remdups (map (\<lambda>(c, off). length (digest c)) records));
          buckets = map (\<lambda>w. (w, bucket_of records w)) widths
      in if list_all (\<lambda>(w, recs). distinct (map fst recs)) buckets
         then Inr buckets else Inl DuplicateKey)"

text \<open>
  The binary search is that of Go's \<open>sort.Search\<close>: the least position in \<open>[i, j)\<close> whose
  digest is not below the wanted one.
\<close>

function search_from :: "bucket \<Rightarrow> bytes \<Rightarrow> nat \<Rightarrow> nat \<Rightarrow> nat" where
  "search_from recs dg i j =
     (if i < j then
        (let h = (i + j) div 2
         in if fst (recs ! h) < dg then search_from recs dg (h + 1) j
            else search_from recs dg i h)
      else i)"
  by pat_completeness auto
termination
  by (relation "measure (\<lambda>(recs, dg, i, j). j - i)") auto

declare search_from.simps [simp del]

text \<open>What the search is to return: the least position whose digest is not below \<open>dg\<close>.\<close>

definition lower_bound_at :: "bucket \<Rightarrow> bytes \<Rightarrow> nat \<Rightarrow> bool" where
  "lower_bound_at recs dg r \<longleftrightarrow>
     r \<le> length recs \<and> (\<forall>n<r. fst (recs ! n) < dg)
     \<and> (\<forall>n. r \<le> n \<and> n < length recs \<longrightarrow> dg \<le> fst (recs ! n))"

definition bucket_get :: "bucket \<Rightarrow> bytes \<Rightarrow> error + uint64" where
  "bucket_get recs dg =
     (let i = search_from recs dg 0 (length recs)
      in if i < length recs \<and> fst (recs ! i) = dg then Inr (snd (recs ! i))
         else Inl ErrNotFound)"

definition sorted_Get :: "SortedIndex \<Rightarrow> Index" where
  "sorted_Get ix c =
     (case map_of ix (length (digest c)) of
        None \<Rightarrow> Inl ErrNotFound
      | Some recs \<Rightarrow> bucket_get recs (digest c))"

section \<open>Index generation\<close>

text \<open>
  Package \<open>internal/carv1\<close> is not among the sources and the spec leaves the encoding of
  the header body open, so its \<open>ReadHeader\<close> (applied to a reader at offset 0 of the
  backing) and \<open>HeaderSize\<close> are parameters of the functions that call them.
\<close>

datatype CarHeader = CarHeader (Roots: "Cid list") (Version: uint64)

record carv1 =
  ReadHeader :: "bytes \<Rightarrow> error + CarHeader"
  HeaderSize :: "CarHeader \<Rightarrow> error + uint64"

text \<open>
  The loop of \<open>Generate\<close>. It ends at \<open>io.EOF\<close> on the first byte of a varint, fails on
  any other error, and otherwise moves the reader to \<open>thisItemForNxt + int64(l)\<close>, which
  wraps and may lie before the current frame: the loop need not terminate, and \<open>None\<close>
  stands for not returning.
\<close>

partial_function (option) generate_loop ::
  "bytes \<Rightarrow> int64 \<Rightarrow> Record list \<Rightarrow> (error + Record list) option" where
  "generate_loop car rdr records =
     (let thisItemIdx = rdr in
      case ReadUvarint car rdr of
        (Inl err, thisItemForNxt) \<Rightarrow>
          if err = EOF then Some (Inr records) else Some (Inl err)
      | (Inr l, thisItemForNxt) \<Rightarrow>
          (case ReadCid car thisItemForNxt of
             Inl err \<Rightarrow> Some (Inl err)
           | Inr (c, _) \<Rightarrow>
               generate_loop car (thisItemForNxt + l) (records @ [(c, thisItemIdx)])))"

declare generate_loop.simps [code]

definition Generate :: "carv1 \<Rightarrow> bytes \<Rightarrow> (error + SortedIndex) option" where
  "Generate pkg car =
     (case ReadHeader pkg car of
        Inl err \<Rightarrow> Some (Inl (ErrReadingCarHeader err))
      | Inr header \<Rightarrow>
     (case HeaderSize pkg header of
        Inl err \<Rightarrow> Some (Inl err)
      | Inr offset \<Rightarrow>
     (case generate_loop car offset [] of
        None \<Rightarrow> None
      | Some (Inl err) \<Rightarrow> Some (Inl err)
      | Some (Inr records) \<Rightarrow>
          (case Load mkSorted records of
             Inl err \<Rightarrow> Some (Inl err)
           | Inr ix \<Rightarrow> Some (Inr ix)))))"

text \<open>
  The frames of a payload, as a sequential reader sees them: from \<open>off\<close>, frame after
  frame with \<open>read_frame\<close>, up to the end of the bytes. Each entry is the offset of the
  frame's leading varint, its CID and its data.
\<close>

inductive frames_from :: "bytes \<Rightarrow> int64 \<Rightarrow> (int64 \<times> Cid \<times> bytes) list \<Rightarrow> bool" where
  frames_end: "0 \<le> sint off \<Longrightarrow> int (length car) \<le> sint off \<Longrightarrow> frames_from car off []"
| frames_next: "read_frame car off = Inr (c, payload, nxt) \<Longrightarrow> frames_from car nxt fs
     \<Longrightarrow> frames_from car off ((off, c, payload) # fs)"

code_pred frames_from .

definition frame_cid :: "int64 \<times> Cid \<times> bytes \<Rightarrow> Cid" where
  "frame_cid f = fst (snd f)"

section \<open>The CARv2 wrapper\<close>

text \<open>
  Modelled from the spec: package \<open>carv2\<close> (the prefix, the header and its reader) is not
  among the sources. The spec (3, 4.4, 6) fixes an 11-byte prefix that is a CARv1 header
  of version 2, and a 40-byte header: 16 bytes of characteristics, then the data offset,
  the data size and the index offset as little-endian \<open>uint64\<close>. \<open>NewReader\<close> verifies
  the prefix (\<open>NotCarV2\<close>), reads the header and validates its fields; \<open>CarV1Reader\<close> is
  the sub-reader of \<open>[data_offset, data_offset + data_size)\<close> and \<open>IndexReader\<close> the reader
  from \<open>index_offset\<close>.
\<close>

definition PrefixBytes :: bytes where
  "PrefixBytes = [0x0a, 0xa1, 0x67, 0x76, 0x65, 0x72, 0x73, 0x69, 0x6f, 0x6e, 0x02]"

definition PrefixBytesSize :: uint64 where "PrefixBytesSize = 11"
definition HeaderBytesSize :: uint64 where "HeaderBytesSize = 40"

record Header =
  Characteristics :: bytes
  CarV1Offset :: uint64
  CarV1Size :: uint64
  IndexOffset :: uint64

definition HasIndex :: "Header \<Rightarrow> bool" where
  "HasIndex h \<longleftrightarrow> IndexOffset h \<noteq> 0"

fun Uint64_le :: "bytes \<Rightarrow> uint64" where
  "Uint64_le [] = 0"
| "Uint64_le (b # bs) = ucast b OR push_bit 8 (Uint64_le bs)"

definition PutUint64_le :: "uint64 \<Rightarrow> bytes" where
  "PutUint64_le v = map (\<lambda>i. ucast (drop_bit (8 * i) v)) [0..<8]"


record Reader =
  Header :: Header
  underlying :: bytes

definition NewReader :: "bytes \<Rightarrow> error + Reader" where
  "NewReader rd =
     (if take 11 rd \<noteq> PrefixBytes then Inl NotCarV2
      else let hb = take 40 (drop 11 rd) in
        if length hb < 40 then Inl ErrUnexpectedEOF
        else let h = \<lparr>Characteristics = take 16 hb,
                       CarV1Offset = Uint64_le (take 8 (drop 16 hb)),
                       CarV1Size = Uint64_le (take 8 (drop 24 hb)),
                       IndexOffset = Uint64_le (take 8 (drop 32 hb))\<rparr> in
          if CarV1Offset h < PrefixBytesSize + HeaderBytesSize \<or> CarV1Size h = 0
             \<or> (IndexOffset h \<noteq> 0 \<and> IndexOffset h < CarV1Offset h + CarV1Size h)
          then Inl InvalidHeader
          else Inr \<lparr>Header = h, underlying = rd\<rparr>)"

definition CarV1Reader :: "Reader \<Rightarrow> bytes" where
  "CarV1Reader v2r =
     take (unat (CarV1Size (Header v2r))) (drop (unat (CarV1Offset (Header v2r))) (underlying v2r))"

definition IndexReader :: "Reader \<Rightarrow> bytes" where
  "IndexReader v2r = drop (unat (IndexOffset (Header v2r))) (underlying v2r)"

section \<open>Opening a store from a CARv2 file\<close>

text \<open>
  The files on disk and the memory mappings that are open. \<open>mmap.Open\<close> acquires a
  mapping of the file at a path, \<open>Close\<close> on the mapping releases it.
\<close>

record world =
  files :: "string \<Rightarrow> bytes option"
  mapped :: "string list"

definition mmap_Open :: "world \<Rightarrow> string \<Rightarrow> world \<times> (error + bytes)" where
  "mmap_Open w path =
     (case files w path of
        None \<Rightarrow> (w, Inl ErrNoSuchFile)
      | Some content \<Rightarrow> (w\<lparr>mapped := path # mapped w\<rparr>, Inr content))"

definition mmap_Close :: "world \<Rightarrow> string \<Rightarrow> world" where
  "mmap_Close w path = w\<lparr>mapped := remove1 path (mapped w)\<rparr>"

text \<open>
  \<open>index.ReadFrom\<close> and \<open>index.Attach\<close> are not among the sources; they are parameters.
  \<open>Attach\<close> may change the files.
\<close>

record index_pkg =
  ReadFrom :: "bytes \<Rightarrow> error + Index"
  Attach :: "world \<Rightarrow> string \<Rightarrow> SortedIndex \<Rightarrow> uint64 \<Rightarrow> world \<times> error option"

text \<open>
  \<open>OpenReadOnly\<close>. The variable \<open>idx\<close> declared before the \<open>if\<close> is nil. In the branch
  without an embedded index, \<open>idx, err := index.Generate(...)\<close> declares a new \<open>idx\<close> local
  to that branch, so the outer one is still nil when the store is built; the other
  branch assigns the outer variable. No path closes the mapping. \<open>None\<close> stands for
  \<open>Generate\<close> not returning.
\<close>

definition OpenReadOnly ::
  "carv1 \<Rightarrow> index_pkg \<Rightarrow> world \<Rightarrow> string \<Rightarrow> bool \<Rightarrow> (world \<times> (error + ReadOnly)) option" where
  "OpenReadOnly pkg ipkg w path attachIndex =
     (case mmap_Open w path of
        (w1, Inl err) \<Rightarrow> Some (w1, Inl err)
      | (w1, Inr reader) \<Rightarrow>
     (case NewReader reader of
        Inl err \<Rightarrow> Some (w1, Inl err)
      | Inr v2r \<Rightarrow>
          if \<not> HasIndex (Header v2r) then
            (case Generate pkg (CarV1Reader v2r) of
               None \<Rightarrow> None
             | Some (Inl err) \<Rightarrow> Some (w1, Inl err)
             | Some (Inr inner_idx) \<Rightarrow>
                 if attachIndex then
                   (case Attach ipkg w1 path inner_idx (IndexOffset (Header v2r)) of
                      (w2, Some err) \<Rightarrow> Some (w2, Inl err)
                    | (w2, None) \<Rightarrow>
                        Some (w2, Inr \<lparr>backing = CarV1Reader v2r, idx = None\<rparr>))
                 else Some (w1, Inr \<lparr>backing = CarV1Reader v2r, idx = None\<rparr>))
          else
            (case ReadFrom ipkg (IndexReader v2r) of
               Inl err \<Rightarrow> Some (w1, Inl err)
             | Inr i \<Rightarrow> Some (w1, Inr \<lparr>backing = CarV1Reader v2r, idx = Some i\<rparr>))))"

text \<open>\<open>GenerateFromFile\<close> maps the file and defers the \<open>Close\<close> of the mapping.\<close>

definition GenerateFromFile ::
  "carv1 \<Rightarrow> world \<Rightarrow> string \<Rightarrow> (world \<times> (error + SortedIndex)) option" where
  "GenerateFromFile pkg w path =
     (case mmap_Open w path of
        (w1, Inl err) \<Rightarrow> Some (w1, Inl err)
      | (w1, Inr store) \<Rightarrow>
          (case Generate pkg store of
             None \<Rightarrow> None
           | Some res \<Rightarrow> Some (mmap_Close w1 path, res)))"

section \<open>The CARv2 writer\<close>











definition Header_bytes :: "Header \<Rightarrow> bytes" where
  "Header_bytes h =
     Characteristics h @ PutUint64_le (CarV1Offset h) @ PutUint64_le (CarV1Size h)
       @ PutUint64_le (IndexOffset h)"













section \<open>\<open>AllKeysChan\<close>\<close>

text \<open>
  \<open>AllKeysChan\<close> reads the header, makes a channel with a buffer of 5 and starts a
  goroutine that scans the frames and sends their CIDs. The goroutine, the consumer of
  the channel and the owner of the context run concurrently; the model is a labelled
  step relation on the state they share: the producer's reader offset, whether the
  producer has not yet returned, the buffer of the channel, whether the channel is
  closed, and whether the context is done.
\<close>

record chan_state =
  rdr :: int64
  running :: bool
  buf :: "Cid list"
  closed :: bool
  cancelled :: bool

datatype event = Send Cid | ProducerReturns | Recv Cid | EndOfSequence | Cancel

definition chan_capacity :: nat where "chan_capacity = 5"

definition AllKeysChan :: "carv1 \<Rightarrow> ReadOnly \<Rightarrow> bool \<Rightarrow> error + chan_state" where
  "AllKeysChan pkg b ctx_done =
     (case ReadHeader pkg (backing b) of
        Inl err \<Rightarrow> Inl (ErrReadingCarHeader err)
      | Inr header \<Rightarrow>
     (case HeaderSize pkg header of
        Inl err \<Rightarrow> Inl err
      | Inr offset \<Rightarrow>
          Inr \<lparr>rdr = offset, running = True, buf = [], closed = False,
               cancelled = ctx_done\<rparr>))"

text \<open>
  One turn of the producer's loop up to its \<open>select\<close>: the varint, the CID right after
  it, and the seek to \<open>thisItemForNxt + int64(l)\<close>. \<open>None\<close> is one of the two \<open>return\<close>s
  on a read error.
\<close>

definition next_key :: "bytes \<Rightarrow> int64 \<Rightarrow> (Cid \<times> int64) option" where
  "next_key b off =
     (case ReadUvarint b off of
        (Inl err, thisItemForNxt) \<Rightarrow> None
      | (Inr l, thisItemForNxt) \<Rightarrow>
          (case ReadCid b thisItemForNxt of
             Inl err \<Rightarrow> None
           | Inr (c, _) \<Rightarrow> Some (c, thisItemForNxt + l)))"

text \<open>
  The steps. At its \<open>select\<close> the producer can send when the buffer has room and can
  return when the context is done; Go chooses among the cases that are ready, so both
  steps are possible when both are ready. The producer has no step that closes the
  channel. The consumer receives the oldest buffered CID, or the end of the sequence
  from a closed and drained channel. The owner of the context may cancel it.
\<close>

inductive step :: "bytes \<Rightarrow> chan_state \<Rightarrow> event \<Rightarrow> chan_state \<Rightarrow> bool" where
  producer_send: "running s \<Longrightarrow> next_key b (rdr s) = Some (c, nxt) \<Longrightarrow> length (buf s) < chan_capacity
     \<Longrightarrow> step b s (Send c) (s\<lparr>rdr := nxt, buf := buf s @ [c]\<rparr>)"
| producer_done: "running s \<Longrightarrow> next_key b (rdr s) = Some (c, nxt) \<Longrightarrow> cancelled s
     \<Longrightarrow> step b s ProducerReturns (s\<lparr>rdr := nxt, running := False\<rparr>)"
| producer_read_error: "running s \<Longrightarrow> next_key b (rdr s) = None
     \<Longrightarrow> step b s ProducerReturns (s\<lparr>running := False\<rparr>)"
| consumer_recv: "buf s = c # rest \<Longrightarrow> step b s (Recv c) (s\<lparr>buf := rest\<rparr>)"
| consumer_end: "buf s = [] \<Longrightarrow> closed s \<Longrightarrow> step b s EndOfSequence s"
| context_cancel: "step b s Cancel (s\<lparr>cancelled := True\<rparr>)"

inductive run :: "bytes \<Rightarrow> chan_state \<Rightarrow> event list \<Rightarrow> chan_state \<Rightarrow> bool" where
  run_nil: "run b s [] s"
| run_step: "step b s e s' \<Longrightarrow> run b s' es s'' \<Longrightarrow> run b s (e # es) s''"

fun sends :: "event list \<Rightarrow> Cid list" where
  "sends [] = []"
| "sends (Send c # es) = c # sends es"
| "sends (e # es) = sends es"

fun recvs :: "event list \<Rightarrow> Cid list" where
  "recvs [] = []"
| "recvs (Recv c # es) = c # recvs es"
| "recvs (e # es) = recvs es"

text \<open>The events of a consumer that takes every CID as soon as it is sent.\<close>

fun eager_events :: "Cid list \<Rightarrow> event list" where
  "eager_events [] = [ProducerReturns]"
| "eager_events (c # cs) = Send c # Recv c # eager_events cs"

section \<open>Example archives\<close>

text \<open>
  A CARv1 header with no roots (the dag-cbor map \<open>{roots: [], version: 1}\<close> behind its
  length varint, 18 bytes), two CIDs and their frames with payloads \<open>a\<close> and \<open>bb\<close>, and
  a CID that is in no frame. The frame of \<open>cA\<close> starts at offset 18, that of \<open>cB\<close> at 26.
\<close>

definition hdr0 :: bytes where
  "hdr0 = [0x11, 0xa2, 0x65, 0x72, 0x6f, 0x6f, 0x74, 0x73, 0x80,
           0x67, 0x76, 0x65, 0x72, 0x73, 0x69, 0x6f, 0x6e, 0x01]"

definition cA :: Cid where "cA = Cid 1 0x55 0x12 [0xaa, 0xbb]"
definition cB :: Cid where "cB = Cid 1 0x55 0x12 [0xcc, 0xdd]"
definition cZ :: Cid where "cZ = Cid 1 0x55 0x12 [0xee, 0xff]"

definition frameA :: bytes where "frameA = [7, 1, 0x55, 0x12, 2, 0xaa, 0xbb, 0x61]"
definition frameB :: bytes where "frameB = [8, 1, 0x55, 0x12, 2, 0xcc, 0xdd, 0x62, 0x62]"

definition car_ab :: bytes where "car_ab = hdr0 @ frameA @ frameB"

text \<open>The sorted index of \<open>car_ab\<close>, as \<open>Generate\<close> builds it, and the store over both.\<close>

definition index_ab :: SortedIndex where
  "index_ab = [(2, [([0xaa, 0xbb], 18), ([0xcc, 0xdd], 26)])]"

definition idx_ab :: Index where
  "idx_ab = sorted_Get index_ab"

definition store_ab :: ReadOnly where "store_ab = ReadOnlyOf car_ab idx_ab"

text \<open>A stale index that sends \<open>cA\<close> to the frame of \<open>cB\<close>.\<close>

definition idx_stale :: Index where
  "idx_stale = sorted_Get [(2, [([0xaa, 0xbb], 26)])]"

definition store_stale :: ReadOnly where "store_stale = ReadOnlyOf car_ab idx_stale"

text \<open>A backing cut one byte short of the end of the frame of \<open>cA\<close>.\<close>

definition store_truncated :: ReadOnly where
  "store_truncated = ReadOnlyOf (hdr0 @ butlast frameA) idx_ab"

text \<open>
  An instance of the header parameters for the examples: it reads the length-prefixed body
  and accepts only the body of \<open>hdr0\<close>, the header with no roots, whose size is 18.
\<close>

definition carv1_no_roots :: carv1 where
  "carv1_no_roots =
     \<lparr>ReadHeader = (\<lambda>car.
        case ReadUvarint car 0 of
          (Inl err, _) \<Rightarrow> Inl err
        | (Inr l, p) \<Rightarrow>
            (case ReadFull car p (unat l) of
               (Inl err, _) \<Rightarrow> Inl err
             | (Inr body, _) \<Rightarrow>
                 if body = tl hdr0 then Inr (CarHeader [] 1) else Inl InvalidHeader)),
      HeaderSize = (\<lambda>h. if Roots h = [] then Inr 18 else Inl InvalidHeader)\<rparr>"

text \<open>
  A payload whose two frames carry different CIDs with the same multihash digest: the
  raw codec \<open>0x55\<close> and the dag-pb codec \<open>0x70\<close> over the digest \<open>aa bb\<close>.
\<close>

definition cA' :: Cid where "cA' = Cid 1 0x70 0x12 [0xaa, 0xbb]"
definition frameA' :: bytes where "frameA' = [7, 1, 0x70, 0x12, 2, 0xaa, 0xbb, 0x61]"
definition car_same_digest :: bytes where "car_same_digest = hdr0 @ frameA @ frameA'"

text \<open>
  Two CARv2 files: \<open>car_ab\<close> wrapped with a header whose index offset is 0, and a file
  with the right prefix and a malformed header (all zero, so a data size of 0).
\<close>

definition header_no_index :: Header where
  "header_no_index =
     \<lparr>Characteristics = replicate 16 0, CarV1Offset = 51, CarV1Size = 35, IndexOffset = 0\<rparr>"

definition file_no_index :: bytes where
  "file_no_index = PrefixBytes @ Header_bytes header_no_index @ car_ab"

definition file_bad_header :: bytes where
  "file_bad_header = PrefixBytes @ replicate 40 0"

definition world_v2 :: world where
  "world_v2 =
     \<lparr>files = (\<lambda>path. if path = ''no-index.car'' then Some file_no_index
                      else if path = ''bad-header.car'' then Some file_bad_header
                      else None),
      mapped = []\<rparr>"

text \<open>
  A payload with one frame whose length varint is \<open>2^64 - 10\<close>, ten bytes long, followed
  by a CID with an empty digest: \<open>thisItemForNxt + int64(l)\<close> is the offset of the frame
  itself.
\<close>

definition car_cycle :: bytes where
  "car_cycle = hdr0 @ [0xf6, 0xff, 0xff, 0xff, 0xff, 0xff, 0xff, 0xff, 0xff, 0x01,
                       1, 0x55, 0x12, 0]"



section \<open>Evaluation of the readers\<close>

lemmas reader_defs = read_frame_def ReadNode_def ReadCid_def ReadFull_def ReadUvarint_def
  uvarint_loop.simps ReadByte_def

lemma idx_ab_simps:
  "idx_ab cA = Inr 18" "idx_ab cB = Inr 26" "idx_ab cZ = Inl ErrNotFound"
  by (simp_all add: idx_ab_def index_ab_def sorted_Get_def bucket_get_def search_from.simps
      cA_def cB_def cZ_def)

lemma idx_stale_simps: "idx_stale cA = Inr 26"
  by (simp add: idx_stale_def sorted_Get_def bucket_get_def search_from.simps cA_def)

lemmas example_defs = hdr0_def cA_def cB_def cZ_def frameA_def frameB_def car_ab_def
  store_ab_def store_stale_def store_truncated_def ReadOnlyOf_def
  cA'_def frameA'_def car_same_digest_def
  idx_ab_simps [unfolded cA_def cB_def cZ_def] idx_stale_simps [unfolded cA_def]

lemma read_frame_parts:
  "read_frame r off = Inr (c, payload, nxt) \<Longrightarrow>
   \<exists>l p k. ReadUvarint r off = (Inr l, p) \<and> ReadCid r p = Inr (c, k) \<and> nxt = p + l"
  by (auto simp: read_frame_def split: prod.splits sum.splits if_splits)

lemma readBlock_store_ab: "readBlock store_ab 18 = Inr (cA, [0x61])"
  by (simp add: readBlock_def reader_defs example_defs)

lemma readBlock_store_stale: "readBlock store_stale 26 = Inr (cB, [0x62, 0x62])"
  by (simp add: readBlock_def reader_defs example_defs)

lemma readBlock_store_truncated: "readBlock store_truncated 18 = Inl EOF"
  by (simp add: readBlock_def reader_defs example_defs)

section \<open>The store's queries\<close>

text \<open>
  C4. When the index returns an offset for the key, \<open>Get\<close> surfaces exactly \<open>ErrNotFound\<close>
  if reading the frame at that offset fails with any error, or if the frame read there
  carries another CID; when the frame reads and carries the key, \<open>Get\<close> returns the block
  whose payload is the data bytes of that frame.
\<close>

theorem Get_surfaces_NotFound:
  assumes "idx b = Some i" and "i key = Inr offset"
  shows "(\<forall>err. readBlock b offset = Inl err \<longrightarrow> Get b key = Returns (Inl ErrNotFound))
       \<and> (\<forall>entry data. readBlock b offset = Inr (entry, data) \<and> entry \<noteq> key
             \<longrightarrow> Get b key = Returns (Inl ErrNotFound))
       \<and> (\<forall>data. readBlock b offset = Inr (key, data)
             \<longrightarrow> Get b key = Returns (Inr (Block data key)))"
  using assms by (simp add: Get_def NewBlockWithCid_def)

theorem Get_surfaces_NotFound_witness:
  "Get store_ab cA = Returns (Inr (Block [0x61] cA))
   \<and> Get store_stale cA = Returns (Inl ErrNotFound)
   \<and> Get store_truncated cA = Returns (Inl ErrNotFound)"
proof -
  have a: "idx store_ab = Some idx_ab" "idx_ab cA = Inr 18"
    by (simp_all add: example_defs)
  have b: "idx store_stale = Some idx_stale" "idx_stale cA = Inr 26"
    by (simp_all add: example_defs)
  have c: "idx store_truncated = Some idx_ab"
    by (simp add: example_defs)
  have ne: "cB \<noteq> cA"
    by (simp add: example_defs)
  from Get_surfaces_NotFound [OF a] readBlock_store_ab
  have 1: "Get store_ab cA = Returns (Inr (Block [0x61] cA))" by blast
  from Get_surfaces_NotFound [OF b] readBlock_store_stale ne
  have 2: "Get store_stale cA = Returns (Inl ErrNotFound)" by blast
  from Get_surfaces_NotFound [OF c a(2)] readBlock_store_truncated
  have 3: "Get store_truncated cA = Returns (Inl ErrNotFound)" by blast
  from 1 2 3 show ?thesis by simp
qed

text \<open>
  C2, as stated, fails: for a CID that the index does not have, \<open>Has\<close> does not return
  \<open>(false, nil)\<close>. In the example store, over \<open>car_ab\<close> and its sorted index, the index
  answers \<open>ErrNotFound\<close> for \<open>cZ\<close>, and \<open>Has\<close> returns \<open>false\<close> with that error.
\<close>

theorem Has_absent_counterexample:
  "idx store_ab = Some idx_ab \<and> idx_ab cZ = Inl ErrNotFound
   \<and> Has store_ab cZ = Returns (False, Some ErrNotFound)
   \<and> Has store_ab cZ \<noteq> Returns (False, None)"
  by (simp add: Has_def store_ab_def ReadOnlyOf_def idx_ab_simps)

text \<open>
  C2, amended. When the index lookup of the key fails, \<open>Has\<close> returns \<open>false\<close> together
  with the very error of the index and does not read the backing; for a CID absent from
  the index that is \<open>(false, NotFound)\<close>, never an I/O error.
\<close>

theorem Has_absent_returns_index_error:
  assumes "idx b = Some i" and "i key = Inl err"
  shows "Has b key = Returns (False, Some err)"
  using assms by (simp add: Has_def)

theorem Has_absent_returns_index_error_witness:
  "Has store_ab cZ = Returns (False, Some ErrNotFound)"
proof -
  have a: "idx store_ab = Some idx_ab" "idx_ab cZ = Inl ErrNotFound"
    by (simp_all add: example_defs)
  from Has_absent_returns_index_error [OF a] show ?thesis .
qed

text \<open>Where \<open>GetSize\<close> looks for the CID: at the index offset plus the value of the varint.\<close>

lemma GetSize_reads_at:
  assumes "idx b = Some i" and "i key = Inr ix" and "ReadUvarint (backing b) ix = (Inr l, p)"
  shows "GetSize b key = Returns
           (case ReadCid (backing b) (ix + l) of
              Inl err \<Rightarrow> (0, Some err)
            | Inr (c, k) \<Rightarrow> if c \<noteq> key then (- 1, Some ErrNotFound) else (sint l, None))"
  using assms by (simp add: GetSize_def split: sum.splits prod.splits)

text \<open>
  C3 does not hold of the code. In the example store the index sends \<open>cA\<close> to offset 18,
  where a well-formed frame of \<open>cA\<close> lies: its varint is \<open>L = 7\<close>, one byte long, and the
  CID right after it, at offset 19, is \<open>cA\<close>. \<open>GetSize\<close> reads the CID at offset
  \<open>18 + L = 25\<close> instead and returns \<open>0\<close> with the error of that read, not \<open>7\<close>.
\<close>

theorem GetSize_reads_cid_at_wrong_offset:
  "idx store_ab = Some idx_ab \<and> idx_ab cA = Inr 18
   \<and> read_frame (backing store_ab) 18 = Inr (cA, [0x61], 26)
   \<and> ReadUvarint (backing store_ab) 18 = (Inr 7, 19)
   \<and> ReadCid (backing store_ab) 19 = Inr (cA, 6)
   \<and> GetSize store_ab cA = Returns (0, Some ErrUnexpectedEOF)"
  by (simp add: GetSize_def reader_defs example_defs)

text \<open>
  C10, as stated, fails: on a backing that ends inside the frame of \<open>cA\<close>, after its CID,
  \<open>Has\<close> answers \<open>(true, nil)\<close> while \<open>Get\<close> answers \<open>ErrNotFound\<close>.
\<close>

theorem Has_true_Get_fails_counterexample:
  "Has store_truncated cA = Returns (True, None)
   \<and> Get store_truncated cA = Returns (Inl ErrNotFound)"
  by (simp add: Has_def Get_def readBlock_def reader_defs example_defs)

text \<open>
  C10, amended. Whenever \<open>Get\<close> returns a block, \<open>Has\<close> returns \<open>(true, nil)\<close>; and when the
  frame at the offset that the index gives for the key can be read in full, \<open>Has\<close>
  returns \<open>(true, nil)\<close> exactly when \<open>Get\<close> returns a block.
\<close>

theorem Has_Get_agree:
  assumes "idx b = Some i"
  shows "((\<exists>blk. Get b key = Returns (Inr blk)) \<longrightarrow> Has b key = Returns (True, None))
       \<and> ((\<forall>offset. i key = Inr offset \<longrightarrow> (\<exists>res. readBlock b offset = Inr res))
           \<longrightarrow> (Has b key = Returns (True, None) \<longleftrightarrow> (\<exists>blk. Get b key = Returns (Inr blk))))"
  using assms
  by (auto simp: Has_def Get_def readBlock_def ReadNode_def NewBlockWithCid_def
      split: sum.splits prod.splits if_splits dest!: read_frame_parts)

theorem Has_Get_agree_witness:
  "Has store_ab cA = Returns (True, None) \<and> (\<exists>blk. Get store_ab cA = Returns (Inr blk))"
proof -
  have a: "idx store_ab = Some idx_ab"
    by (simp add: example_defs)
  have r: "\<forall>offset. idx_ab cA = Inr offset \<longrightarrow> (\<exists>res. readBlock store_ab offset = Inr res)"
    using readBlock_store_ab by (simp add: idx_ab_simps)
  have g: "Get store_ab cA = Returns (Inr (Block [0x61] cA))"
    by (simp add: Get_def NewBlockWithCid_def readBlock_def reader_defs example_defs)
  from Has_Get_agree [OF a, of cA] r g show ?thesis by blast
qed

section \<open>Lookup in the sorted index\<close>

lemma search_from_bounds:
  assumes "sorted (map fst recs)" and "i \<le> j" and "j \<le> length recs"
    and "\<forall>n<i. fst (recs ! n) < dg"
    and "\<forall>n. j \<le> n \<and> n < length recs \<longrightarrow> dg \<le> fst (recs ! n)"
  shows "lower_bound_at recs dg (search_from recs dg i j)"
  using assms
proof (induction recs dg i j rule: search_from.induct)
  case (1 recs dg i j)
  show ?case
  proof (cases "i < j")
    case False
    with "1.prems" have "i = j" by simp
    moreover from False have "search_from recs dg i j = i"
      by (simp add: search_from.simps [of recs dg i j])
    ultimately show ?thesis
      using "1.prems" by (simp add: lower_bound_at_def)
  next
    case True
    define h where "h = (i + j) div 2"
    have h: "i \<le> h" "h < j" "h < length recs"
      using True "1.prems" by (simp_all add: h_def)
    have mono: "\<And>m n. m \<le> n \<Longrightarrow> n < length recs \<Longrightarrow> fst (recs ! m) \<le> fst (recs ! n)"
      using "1.prems"(1) sorted_nth_mono [of "map fst recs"] by fastforce
    show ?thesis
    proof (cases "fst (recs ! h) < dg")
      case lt: True
      have low: "\<forall>n<h + 1. fst (recs ! n) < dg"
      proof (intro allI impI)
        fix n assume "n < h + 1"
        then have "n \<le> h" by simp
        from mono [OF this h(3)] lt show "fst (recs ! n) < dg" by simp
      qed
      have eq: "search_from recs dg i j = search_from recs dg (h + 1) j"
        using True lt by (simp add: search_from.simps [of recs dg i j] h_def Let_def)
      have "lower_bound_at recs dg (search_from recs dg (h + 1) j)"
        using "1.IH"(1) [of h] True lt h "1.prems" low by (simp add: h_def)
      with eq show ?thesis by simp
    next
      case ge: False
      have high: "\<forall>n. h \<le> n \<and> n < length recs \<longrightarrow> dg \<le> fst (recs ! n)"
      proof (intro allI impI)
        fix n assume n: "h \<le> n \<and> n < length recs"
        then have "fst (recs ! h) \<le> fst (recs ! n)" using mono by blast
        with ge show "dg \<le> fst (recs ! n)" by simp
      qed
      have eq: "search_from recs dg i j = search_from recs dg i h"
        using True ge by (simp add: search_from.simps [of recs dg i j] h_def Let_def)
      have "lower_bound_at recs dg (search_from recs dg i h)"
        using "1.IH"(2) [of h] True ge h "1.prems" high by (simp add: h_def)
      with eq show ?thesis by simp
    qed
  qed
qed

lemma bucket_get_finds:
  assumes srt: "sorted (map fst recs)" and dst: "distinct (map fst recs)"
    and mem: "(dg, off) \<in> set recs"
  shows "bucket_get recs dg = Inr off"
proof -
  from mem obtain m where m: "m < length recs" "recs ! m = (dg, off)"
    by (auto simp: in_set_conv_nth)
  define r where "r = search_from recs dg 0 (length recs)"
  have lb: "lower_bound_at recs dg r"
    unfolding r_def by (rule search_from_bounds [OF srt]) auto
  have "r \<le> m"
  proof (rule ccontr)
    assume "\<not> r \<le> m"
    then have "fst (recs ! m) < dg" using lb by (simp add: lower_bound_at_def)
    with m show False by simp
  qed
  with m have rlen: "r < length recs" by simp
  have "dg \<le> fst (recs ! r)" using lb rlen by (simp add: lower_bound_at_def)
  moreover have "fst (recs ! r) \<le> fst (recs ! m)"
    using srt \<open>r \<le> m\<close> m(1) sorted_nth_mono [of "map fst recs" r m] by simp
  ultimately have key: "fst (recs ! r) = dg" using m by simp
  then have "map fst recs ! r = map fst recs ! m" using rlen m by simp
  moreover have "r < length (map fst recs)" "m < length (map fst recs)"
    using rlen m by simp_all
  ultimately have "r = m" using dst by (simp only: nth_eq_iff_index_eq)
  with m key rlen show ?thesis
    by (simp add: bucket_get_def r_def [symmetric])
qed


lemma map_of_buckets:
  "map_of (map (\<lambda>w. (w, f w)) ws) w = (if w \<in> set ws then Some (f w) else None)"
  by (induction ws) auto

lemma sorted_bucket_of: "sorted (map fst (bucket_of records w))"
  by (simp add: bucket_of_def)

lemma set_bucket_of:
  "(c, off) \<in> set records \<Longrightarrow> (digest c, off) \<in> set (bucket_of records (length (digest c)))"
  by (force simp: bucket_of_def)

lemma Load_buckets:
  assumes "Load ix0 records = Inr ix"
  shows "ix = map (\<lambda>w. (w, bucket_of records w))
                  (sort (remdups (map (\<lambda>(c, off). length (digest c)) records)))"
    and "\<And>w. w \<in> (\<lambda>(c, off). length (digest c)) ` set records
             \<Longrightarrow> distinct (map fst (bucket_of records w))"
  using assms by (auto simp: Load_def Let_def list_all_iff split: if_splits)

lemma sorted_Get_Load:
  assumes ld: "Load ix0 records = Inr ix" and mem: "(c, off) \<in> set records"
  shows "sorted_Get ix c = Inr off"
proof -
  let ?w = "length (digest c)"
  have w: "?w \<in> (\<lambda>(c, off). length (digest c)) ` set records"
    using mem by force
  then have "map_of ix ?w = Some (bucket_of records ?w)"
    by (simp add: Load_buckets(1) [OF ld] map_of_buckets)
  moreover have "bucket_get (bucket_of records ?w) (digest c) = Inr off"
    by (rule bucket_get_finds [OF sorted_bucket_of Load_buckets(2) [OF ld w] set_bucket_of [OF mem]])
  ultimately show ?thesis by (simp add: sorted_Get_def)
qed

lemma distinct_map_sort_key: "distinct (map f (sort_key g xs)) = distinct (map f xs)"
  by (simp add: distinct_map)

lemma distinct_bucket_of:
  assumes "distinct (map (\<lambda>(c, off). digest c) records)"
  shows "distinct (map fst (bucket_of records w))"
proof -
  have "map fst (map (\<lambda>(c, off). (digest c, off)) (filter (\<lambda>(c, off). length (digest c) = w) records))
        = map (\<lambda>(c, off). digest c) (filter (\<lambda>(c, off). length (digest c) = w) records)"
    by (induction records) auto
  moreover have "distinct (map (\<lambda>(c, off). digest c) (filter (\<lambda>(c, off). length (digest c) = w) records))"
    using assms by (rule distinct_map_filter)
  ultimately have "distinct (map fst (map (\<lambda>(c, off). (digest c, off))
      (filter (\<lambda>(c, off). length (digest c) = w) records)))" by (simp only:)
  then show ?thesis
    unfolding bucket_of_def by (simp only: distinct_map_sort_key)
qed

lemma Load_succeeds:
  assumes "distinct (map (\<lambda>(c, off). digest c) records)"
  shows "\<exists>ix. Load ix0 records = Inr ix"
  using distinct_bucket_of [OF assms]
  by (simp add: Load_def Let_def list_all_iff)

lemma ReadUvarint_at_end:
  "0 \<le> sint off \<Longrightarrow> int (length car) \<le> sint off \<Longrightarrow> ReadUvarint car off = (Inl EOF, off)"
  by (simp add: ReadUvarint_def uvarint_loop.simps [of car off 0] ReadByte_def)

lemma generate_loop_frames:
  "frames_from car off fs \<Longrightarrow>
   generate_loop car off records = Some (Inr (records @ map (\<lambda>(off, c, payload). (c, off)) fs))"
proof (induction arbitrary: records rule: frames_from.induct)
  case (frames_end off car)
  then show ?case
    by (subst generate_loop.simps) (simp add: ReadUvarint_at_end)
next
  case (frames_next car off c payload nxt fs)
  from read_frame_parts [OF frames_next.hyps(1)] obtain l p k where
    "ReadUvarint car off = (Inr l, p)" "ReadCid car p = Inr (c, k)" "nxt = p + l" by blast
  then show ?case
    using frames_next.IH [of "records @ [(c, off)]"]
    by (subst generate_loop.simps) simp
qed

lemma frames_from_read_frame:
  "frames_from car off fs \<Longrightarrow> (o', c, payload) \<in> set fs \<Longrightarrow>
   \<exists>nxt. read_frame car o' = Inr (c, payload, nxt)"
  by (induction rule: frames_from.induct) auto


lemma sorted_Get_error: "sorted_Get ix c = Inl err \<Longrightarrow> err = ErrNotFound"
  by (auto simp: sorted_Get_def bucket_get_def Let_def split: option.splits if_splits)

section \<open>Index generation\<close>

lemma frames_ab: "frames_from car_ab 18 [(18, cA, [0x61]), (26, cB, [0x62, 0x62])]"
proof -
  have 1: "read_frame car_ab 18 = Inr (cA, [0x61], 26)"
    by (simp add: reader_defs example_defs)
  have 2: "read_frame car_ab 26 = Inr (cB, [0x62, 0x62], 35)"
    by (simp add: reader_defs example_defs)
  have 3: "frames_from car_ab 35 []"
    by (rule frames_end) (simp_all add: example_defs)
  from 1 2 3 show ?thesis by (blast intro: frames_next)
qed

lemma frames_same_digest:
  "frames_from car_same_digest 18 [(18, cA, [0x61]), (26, cA', [0x61])]"
proof -
  have 1: "read_frame car_same_digest 18 = Inr (cA, [0x61], 26)"
    by (simp add: reader_defs example_defs)
  have 2: "read_frame car_same_digest 26 = Inr (cA', [0x61], 34)"
    by (simp add: reader_defs example_defs)
  have 3: "frames_from car_same_digest 34 []"
    by (rule frames_end) (simp_all add: example_defs)
  from 1 2 3 show ?thesis by (blast intro: frames_next)
qed

lemma header_no_roots:
  "ReadHeader carv1_no_roots (hdr0 @ rest) = Inr (CarHeader [] 1)"
  "HeaderSize carv1_no_roots (CarHeader [] 1) = Inr 18"
  by (simp_all add: carv1_no_roots_def reader_defs hdr0_def)

text \<open>
  C5, as stated, fails on a payload whose frames are all well formed but two of which
  carry CIDs with one multihash digest: the index is keyed by digest, the bulk load
  refuses the duplicate, and \<open>Generate\<close> returns no index.
\<close>

theorem Generate_same_digest_counterexample:
  "ReadHeader carv1_no_roots car_same_digest = Inr (CarHeader [] 1)
   \<and> HeaderSize carv1_no_roots (CarHeader [] 1) = Inr 18
   \<and> frames_from car_same_digest 18 [(18, cA, [0x61]), (26, cA', [0x61])]
   \<and> cA \<noteq> cA'
   \<and> Generate carv1_no_roots car_same_digest = Some (Inl DuplicateKey)"
proof -
  have h: "ReadHeader carv1_no_roots car_same_digest = Inr (CarHeader [] 1)"
    unfolding car_same_digest_def by (rule header_no_roots)
  have loop: "generate_loop car_same_digest 18 [] = Some (Inr [(cA, 18), (cA', 26)])"
    using generate_loop_frames [OF frames_same_digest, of "[]"] by simp
  have "Load mkSorted [(cA, 18), (cA', 26)] = Inl DuplicateKey"
    by (simp add: Load_def bucket_of_def cA_def cA'_def)
  with h loop have "Generate carv1_no_roots car_same_digest = Some (Inl DuplicateKey)"
    by (simp add: Generate_def header_no_roots(2))
  with h frames_same_digest show ?thesis
    by (simp add: header_no_roots(2)) (simp add: cA_def cA'_def)
qed

text \<open>
  C5, amended. For every CARv1 payload whose header reads, whose frames from the
  first-frame offset are well formed up to the end of the payload, and whose frame CIDs
  have pairwise distinct multihash digests, \<open>Generate\<close> returns: it walks the frames in
  order, records each CID with the offset of its frame's leading varint and bulk-loads
  the records, and for every CID of the payload the lookup in the generated index
  returns the offset of a frame which reads as that CID (with its data).
\<close>

theorem Generate_index_finds_every_frame:
  assumes "ReadHeader pkg car = Inr header" and "HeaderSize pkg header = Inr offset"
    and "frames_from car offset fs"
    and "distinct (map (digest \<circ> frame_cid) fs)"
  shows "generate_loop car offset [] = Some (Inr (map (\<lambda>(off, c, payload). (c, off)) fs))
       \<and> (\<exists>ix. Generate pkg car = Some (Inr ix)
           \<and> (\<forall>(off, c, payload) \<in> set fs.
                 sorted_Get ix c = Inr off
                 \<and> (\<exists>nxt. read_frame car off = Inr (c, payload, nxt))))"
proof -
  let ?records = "map (\<lambda>(off, c, payload). (c, off)) fs"
  have loop: "generate_loop car offset [] = Some (Inr ?records)"
    using generate_loop_frames [OF assms(3), of "[]"] by simp
  have "map (\<lambda>(c, off). digest c) ?records = map (digest \<circ> frame_cid) fs"
    by (induction fs) (auto simp: frame_cid_def)
  with assms(4) have "distinct (map (\<lambda>(c, off). digest c) ?records)" by (simp only:)
  from Load_succeeds [OF this] obtain ix where ix: "Load mkSorted ?records = Inr ix" ..
  have gen: "Generate pkg car = Some (Inr ix)"
    using assms(1,2) loop ix by (simp add: Generate_def)
  have "sorted_Get ix c = Inr off \<and> (\<exists>nxt. read_frame car off = Inr (c, payload, nxt))"
    if "(off, c, payload) \<in> set fs" for off c payload
  proof
    from that have "(c, off) \<in> set ?records" by force
    from sorted_Get_Load [OF ix this] show "sorted_Get ix c = Inr off" .
    from frames_from_read_frame [OF assms(3) that]
    show "\<exists>nxt. read_frame car off = Inr (c, payload, nxt)" .
  qed
  with gen loop show ?thesis by blast
qed


theorem Generate_index_finds_every_frame_witness:
  "\<exists>ix. Generate carv1_no_roots car_ab = Some (Inr ix)
        \<and> sorted_Get ix cA = Inr 18 \<and> sorted_Get ix cB = Inr 26
        \<and> (\<exists>nxt. read_frame car_ab 18 = Inr (cA, [0x61], nxt))
        \<and> (\<exists>nxt. read_frame car_ab 26 = Inr (cB, [0x62, 0x62], nxt))"
proof -
  have h: "ReadHeader carv1_no_roots car_ab = Inr (CarHeader [] 1)"
    unfolding car_ab_def by (rule header_no_roots)
  have d: "distinct (map (digest \<circ> frame_cid) [(18, cA, [0x61]), (26, cB, [0x62, 0x62])])"
    by (simp add: frame_cid_def cA_def cB_def)
  from Generate_index_finds_every_frame [OF h header_no_roots(2) frames_ab d]
  show ?thesis by auto
qed

text \<open>
  \<open>Generate\<close> does not return on every payload: on \<open>car_cycle\<close> the loop comes back to
  the same frame for ever, appending a record each time.
\<close>

lemma cycle_reads:
  "ReadUvarint car_cycle 18 = (Inr (- 10), 28)"
  "ReadCid car_cycle 28 = Inr (Cid 1 0x55 0x12 [], 4)"
  by (simp_all add: reader_defs car_cycle_def hdr0_def)

lemma generate_loop_cycle_not_Some:
  assumes "generate_loop car off records = Some res"
  shows "\<not> (car = car_cycle \<and> off = 18)"
proof (rule generate_loop.raw_induct
    [where P = "\<lambda>c r rs y. \<not> (c = car_cycle \<and> r = 18)", OF _ assms])
  fix f c r rs y
  assume IH: "\<And>c r rs y. f c r rs = Some y \<Longrightarrow> \<not> (c = car_cycle \<and> r = 18)"
    and body: "(let thisItemIdx = r in
      case ReadUvarint c r of
        (Inl err, thisItemForNxt) \<Rightarrow>
          if err = EOF then Some (Inr rs) else Some (Inl err)
      | (Inr l, thisItemForNxt) \<Rightarrow>
          (case ReadCid c thisItemForNxt of
             Inl err \<Rightarrow> Some (Inl err)
           | Inr (k, _) \<Rightarrow> f c (thisItemForNxt + l) (rs @ [(k, thisItemIdx)]))) = Some y"
  show "\<not> (c = car_cycle \<and> r = 18)"
  proof
    assume "c = car_cycle \<and> r = 18"
    with body have "f car_cycle 18 (rs @ [(Cid 1 0x55 0x12 [], 18)]) = Some y"
      by (simp add: cycle_reads)
    from IH [OF this] show False by simp
  qed
qed

lemma generate_loop_diverges: "generate_loop car_cycle 18 records = None"
  by (cases "generate_loop car_cycle 18 records") (auto dest: generate_loop_cycle_not_Some)


lemma Generate_diverges: "Generate carv1_no_roots car_cycle = None"
proof -
  have "ReadHeader carv1_no_roots car_cycle = Inr (CarHeader [] 1)"
    unfolding car_cycle_def by (rule header_no_roots)
  then show ?thesis
    by (simp add: Generate_def header_no_roots(2) generate_loop_diverges)
qed




section \<open>Opening a store from a CARv2 file\<close>

lemmas v2_defs = NewReader_def PrefixBytes_def PrefixBytesSize_def HeaderBytesSize_def
  Header_bytes_def PutUint64_le_def HasIndex_def CarV1Reader_def IndexReader_def
  header_no_index_def file_no_index_def file_bad_header_def

lemma upt8: "[0..<8] = [0, 1, 2, 3, 4, 5, 6, 7]"
  by (simp add: upt_rec)

lemma NewReader_no_index:
  "NewReader file_no_index = Inr \<lparr>Header = header_no_index, underlying = file_no_index\<rparr>"
  by (simp add: v2_defs upt8 example_defs Let_def)

lemma CarV1Reader_no_index:
  "CarV1Reader \<lparr>Header = header_no_index, underlying = file_no_index\<rparr> = car_ab"
  by (simp add: v2_defs upt8 example_defs)

lemma HasIndex_no_index: "\<not> HasIndex header_no_index"
  by (simp add: HasIndex_def header_no_index_def)

lemma Uint64_le_zeros: "Uint64_le (replicate n 0) = 0"
  by (induction n) simp_all

lemma Generate_car_ab:
  "Generate carv1_no_roots car_ab = Some (Inr index_ab)"
proof -
  have h: "ReadHeader carv1_no_roots car_ab = Inr (CarHeader [] 1)"
    unfolding car_ab_def by (rule header_no_roots)
  have loop: "generate_loop car_ab 18 [] = Some (Inr [(cA, 18), (cB, 26)])"
    using generate_loop_frames [OF frames_ab, of "[]"] by simp
  have "Load mkSorted [(cA, 18), (cB, 26)] = Inr index_ab"
    by (simp add: Load_def bucket_of_def cA_def cB_def index_ab_def)
  with h loop show ?thesis
    by (simp add: Generate_def header_no_roots(2))
qed

lemma sorted_Get_car_ab:
  "sorted_Get index_ab cA = Inr 18"
  using idx_ab_simps(1) by (simp add: idx_ab_def)

text \<open>
  C1 does not hold of the code. The file \<open>no-index.car\<close> is a CARv2 whose header has
  index offset 0 and whose payload is \<open>car_ab\<close>. Opened without attaching, the store
  that \<open>OpenReadOnly\<close> returns has a nil index, although the index generated over the
  payload finds \<open>cA\<close> at offset 18; \<open>Has\<close> and \<open>Get\<close> on that store panic.
\<close>

theorem OpenReadOnly_without_index_has_nil_idx:
  "OpenReadOnly carv1_no_roots ipkg world_v2 ''no-index.car'' False
     = Some (world_v2\<lparr>mapped := [''no-index.car'']\<rparr>, Inr \<lparr>backing = car_ab, idx = None\<rparr>)
   \<and> Generate carv1_no_roots car_ab = Some (Inr index_ab)
   \<and> sorted_Get index_ab cA = Inr 18
   \<and> Has \<lparr>backing = car_ab, idx = None\<rparr> cA = Panics
   \<and> Get \<lparr>backing = car_ab, idx = None\<rparr> cA = Panics"
proof -
  have "mmap_Open world_v2 ''no-index.car''
          = (world_v2\<lparr>mapped := [''no-index.car'']\<rparr>, Inr file_no_index)"
    by (simp add: mmap_Open_def world_v2_def)
  then have "OpenReadOnly carv1_no_roots ipkg world_v2 ''no-index.car'' False
     = Some (world_v2\<lparr>mapped := [''no-index.car'']\<rparr>, Inr \<lparr>backing = car_ab, idx = None\<rparr>)"
    by (simp add: OpenReadOnly_def NewReader_no_index CarV1Reader_no_index Generate_car_ab
        HasIndex_no_index)
  then show ?thesis
    by (simp add: Generate_car_ab sorted_Get_car_ab Has_def Get_def)
qed

text \<open>The same on every file: the branch without an embedded index leaves the index nil.\<close>

lemma OpenReadOnly_no_index_branch:
  assumes "OpenReadOnly pkg ipkg w path attachIndex = Some (w', Inr store)"
    and "files w path = Some content" and "NewReader content = Inr v2r"
    and "\<not> HasIndex (Header v2r)"
  shows "idx store = None"
  using assms
  by (auto simp: OpenReadOnly_def mmap_Open_def split: option.splits sum.splits prod.splits if_splits)

text \<open>
  C8 does not hold of the code. The file \<open>bad-header.car\<close> has the CARv2 prefix and a
  malformed header. \<open>OpenReadOnly\<close> maps it, fails on the header and returns the error
  with the mapping still open, whatever the parameters.
\<close>

theorem OpenReadOnly_leaves_mapping_open:
  "OpenReadOnly pkg ipkg world_v2 ''bad-header.car'' attachIndex
     = Some (world_v2\<lparr>mapped := [''bad-header.car'']\<rparr>, Inl InvalidHeader)
   \<and> mapped world_v2 = []"
proof -
  have "NewReader file_bad_header = Inl InvalidHeader"
    by (simp add: v2_defs Let_def Uint64_le_zeros)
  moreover have "mmap_Open world_v2 ''bad-header.car''
          = (world_v2\<lparr>mapped := [''bad-header.car'']\<rparr>, Inr file_bad_header)"
    by (simp add: mmap_Open_def world_v2_def)
  ultimately show ?thesis
    by (simp add: OpenReadOnly_def) (simp add: world_v2_def)
qed

text \<open>
  No exit of \<open>OpenReadOnly\<close> after a successful \<open>mmap.Open\<close> releases the mapping, while
  \<open>GenerateFromFile\<close> releases its mapping on every exit.
\<close>

lemma OpenReadOnly_never_closes:
  assumes "OpenReadOnly pkg ipkg w path False = Some (w', res)"
    and "files w path = Some content"
  shows "mapped w' = path # mapped w"
  using assms
  by (auto simp: OpenReadOnly_def mmap_Open_def split: option.splits sum.splits prod.splits if_splits)

lemma GenerateFromFile_closes:
  assumes "GenerateFromFile pkg w path = Some (w', res)"
  shows "mapped w' = mapped w"
  using assms
  by (auto simp: GenerateFromFile_def mmap_Open_def mmap_Close_def
      split: option.splits sum.splits prod.splits if_splits)


section \<open>The CARv2 writer\<close>





lemma length_PrefixBytes: "length PrefixBytes = 11"
  by (simp add: PrefixBytes_def)











section \<open>\<open>AllKeysChan\<close>\<close>

lemma next_key_frame:
  "read_frame b off = Inr (c, payload, nxt) \<Longrightarrow> next_key b off = Some (c, nxt)"
  by (auto simp: next_key_def dest!: read_frame_parts)

lemma next_key_at_end:
  "0 \<le> sint off \<Longrightarrow> int (length b) \<le> sint off \<Longrightarrow> next_key b off = None"
  by (simp add: next_key_def ReadUvarint_at_end)

lemma frames_from_next_key:
  assumes "frames_from b off fs" and "next_key b off = Some (c, nxt)"
  shows "\<exists>payload fs'. fs = (off, c, payload) # fs' \<and> frames_from b nxt fs'"
  using assms
  by (cases rule: frames_from.cases) (auto simp: next_key_at_end dest: next_key_frame)

lemma run_sends_prefix:
  "run b s es s' \<Longrightarrow> (running s \<longrightarrow> frames_from b (rdr s) fs)
     \<Longrightarrow> prefix (sends es) (map frame_cid fs)"
proof (induction arbitrary: fs rule: run.induct)
  case (run_nil b s)
  then show ?case by simp
next
  case (run_step b s e s' es s'')
  from run_step.hyps(1) show ?case
  proof (cases rule: step.cases)
    case (producer_send c nxt)
    with run_step.prems have "frames_from b (rdr s) fs" by simp
    from frames_from_next_key [OF this producer_send(4)] obtain payload fs' where
      fs: "fs = (rdr s, c, payload) # fs'" and "frames_from b nxt fs'" by blast
    with producer_send have "running s' \<longrightarrow> frames_from b (rdr s') fs'" by simp
    from run_step.IH [OF this] fs producer_send show ?thesis
      by (simp add: frame_cid_def)
  next
    case (producer_done c nxt)
    then have "running s' \<longrightarrow> frames_from b (rdr s') fs" by simp
    from run_step.IH [OF this] producer_done show ?thesis by simp
  next
    case producer_read_error
    then have "running s' \<longrightarrow> frames_from b (rdr s') fs" by simp
    from run_step.IH [OF this] producer_read_error show ?thesis by simp
  next
    case (consumer_recv c rest)
    with run_step.prems have "running s' \<longrightarrow> frames_from b (rdr s') fs" by simp
    from run_step.IH [OF this] consumer_recv show ?thesis by simp
  next
    case consumer_end
    with run_step.prems have "running s' \<longrightarrow> frames_from b (rdr s') fs" by simp
    from run_step.IH [OF this] consumer_end show ?thesis by simp
  next
    case context_cancel
    with run_step.prems have "running s' \<longrightarrow> frames_from b (rdr s') fs" by simp
    from run_step.IH [OF this] context_cancel show ?thesis by simp
  qed
qed

lemma run_fifo:
  "run b s es s' \<Longrightarrow> buf s @ sends es = recvs es @ buf s'"
proof (induction rule: run.induct)
  case (run_nil b s)
  then show ?case by simp
next
  case (run_step b s e s' es s'')
  from run_step.hyps(1) run_step.IH show ?case
    by (cases rule: step.cases) auto
qed

lemma run_capacity:
  "run b s es s' \<Longrightarrow> length (buf s) \<le> chan_capacity \<Longrightarrow> length (buf s') \<le> chan_capacity"
proof (induction rule: run.induct)
  case (run_nil b s)
  then show ?case by simp
next
  case (run_step b s e s' es s'')
  from run_step.hyps(1) run_step.prems have "length (buf s') \<le> chan_capacity"
    by (cases rule: step.cases) auto
  then show ?case by (rule run_step.IH)
qed

lemma run_cancelled:
  "run b s es s' \<Longrightarrow> cancelled s \<Longrightarrow> cancelled s'"
proof (induction rule: run.induct)
  case (run_nil b s)
  then show ?case by simp
next
  case (run_step b s e s' es s'')
  from run_step.hyps(1) run_step.prems have "cancelled s'"
    by (cases rule: step.cases) auto
  then show ?case by (rule run_step.IH)
qed

lemma run_not_closed:
  "run b s es s' \<Longrightarrow> \<not> closed s \<Longrightarrow> \<not> closed s' \<and> EndOfSequence \<notin> set es"
proof (induction rule: run.induct)
  case (run_nil b s)
  then show ?case by simp
next
  case (run_step b s e s' es s'')
  from run_step.hyps(1) run_step.prems have "\<not> closed s' \<and> e \<noteq> EndOfSequence"
    by (cases rule: step.cases) auto
  with run_step.IH show ?case by auto
qed

lemma producer_can_return:
  assumes "running s" and "cancelled s"
  shows "\<exists>s'. step b s ProducerReturns s' \<and> \<not> running s'"
proof (cases "next_key b (rdr s)")
  case None
  with assms have "step b s ProducerReturns (s\<lparr>running := False\<rparr>)"
    by (simp add: producer_read_error)
  then show ?thesis by force
next
  case (Some a)
  then obtain c nxt where "next_key b (rdr s) = Some (c, nxt)" by (cases a) simp
  with assms have "step b s ProducerReturns (s\<lparr>rdr := nxt, running := False\<rparr>)"
    by (simp add: producer_done)
  then show ?thesis by force
qed

lemma no_send_when_full:
  "length (buf s) = chan_capacity \<Longrightarrow> \<not> step b s (Send c) s'"
  by (auto elim: step.cases)

lemma blocked_consumer:
  assumes "\<not> running s" and "buf s = []" and "\<not> closed s" and "run b s es s'"
  shows "set es \<subseteq> {Cancel} \<and> \<not> running s' \<and> buf s' = [] \<and> \<not> closed s'"
  using assms(4,1,2,3)
proof (induction rule: run.induct)
  case (run_nil b s)
  then show ?case by simp
next
  case (run_step b s e s' es s'')
  from run_step.hyps(1) run_step.prems
  have "e = Cancel \<and> \<not> running s' \<and> buf s' = [] \<and> \<not> closed s'"
    by (cases rule: step.cases) auto
  with run_step.IH show ?case by simp
qed

lemma eager_run:
  "frames_from b off fs \<Longrightarrow> running s \<Longrightarrow> rdr s = off \<Longrightarrow> buf s = [] \<Longrightarrow>
   \<exists>s'. run b s (eager_events (map frame_cid fs)) s' \<and> \<not> running s' \<and> buf s' = []"
proof (induction arbitrary: s rule: frames_from.induct)
  case (frames_end off car)
  then have "next_key car (rdr s) = None"
    by (simp add: next_key_at_end)
  with frames_end have "step car s ProducerReturns (s\<lparr>running := False\<rparr>)"
    by (simp add: producer_read_error)
  then have "run car s [ProducerReturns] (s\<lparr>running := False\<rparr>)"
    by (blast intro: run.intros)
  with frames_end show ?case by force
next
  case (frames_next car off c payload nxt fs)
  let ?s1 = "s\<lparr>rdr := nxt, buf := buf s @ [c]\<rparr>"
  let ?s2 = "?s1\<lparr>buf := []\<rparr>"
  have nk: "next_key car (rdr s) = Some (c, nxt)"
    using frames_next.hyps(1) frames_next.prems by (simp add: next_key_frame)
  have 1: "step car s (Send c) ?s1"
    using frames_next.prems nk by (intro producer_send) (simp_all add: chan_capacity_def)
  have 2: "step car ?s1 (Recv c) ?s2"
    using frames_next.prems by (intro consumer_recv) simp
  from frames_next.IH [of ?s2] frames_next.prems obtain s' where
    r: "run car ?s2 (eager_events (map frame_cid fs)) s'" and e: "\<not> running s'" "buf s' = []"
    by auto
  from 2 r have "run car ?s1 (Recv c # eager_events (map frame_cid fs)) s'"
    by (rule run_step)
  with 1 have "run car s (Send c # Recv c # eager_events (map frame_cid fs)) s'"
    by (rule run_step)
  then have "run car s (eager_events (map frame_cid ((off, c, payload) # fs))) s'"
    by (simp add: frame_cid_def)
  with e show ?case by blast
qed

lemma recvs_eager: "recvs (eager_events cs) = cs"
  by (induction cs) simp_all

lemma frames_from_at_end:
  assumes "frames_from b off fs" and "next_key b off = None"
  shows "fs = []"
  using assms by (cases rule: frames_from.cases) (auto dest: next_key_frame)

lemma run_stopped:
  "run b s es s' \<Longrightarrow> \<not> running s \<Longrightarrow> sends es = [] \<and> \<not> running s'"
proof (induction rule: run.induct)
  case (run_nil b s)
  then show ?case by simp
next
  case (run_step b s e s' es s'')
  from run_step.hyps(1) run_step.prems
  have "\<not> running s' \<and> sends (e # es) = sends es"
    by (cases rule: step.cases) auto
  with run_step.IH show ?case by simp
qed

lemma run_uncancelled_complete:
  "run b s es s' \<Longrightarrow> running s \<Longrightarrow> frames_from b (rdr s) fs
     \<Longrightarrow> \<not> running s' \<Longrightarrow> \<not> cancelled s' \<Longrightarrow> sends es = map frame_cid fs"
proof (induction arbitrary: fs rule: run.induct)
  case (run_nil b s)
  then show ?case by simp
next
  case (run_step b s e s1 es s')
  from run_step.hyps(1) show ?case
  proof (cases rule: step.cases)
    case (producer_send c nxt)
    from frames_from_next_key [OF run_step.prems(2) producer_send(4)] obtain payload fs' where
      fs: "fs = (rdr s, c, payload) # fs'" and f': "frames_from b nxt fs'" by blast
    from producer_send f' have "running s1" "frames_from b (rdr s1) fs'" by simp_all
    from run_step.IH [OF this run_step.prems(3,4)] fs producer_send show ?thesis
      by (simp add: frame_cid_def)
  next
    case (producer_done c nxt)
    then have "cancelled s1" by simp
    from run_cancelled [OF run_step.hyps(2) this] run_step.prems(4) show ?thesis by simp
  next
    case producer_read_error
    from frames_from_at_end [OF run_step.prems(2) producer_read_error(4)] have "fs = []" .
    moreover from producer_read_error have "\<not> running s1" by simp
    from run_stopped [OF run_step.hyps(2) this] have "sends es = []" by simp
    ultimately show ?thesis using producer_read_error by simp
  next
    case (consumer_recv c rest)
    with run_step.prems have "running s1" "frames_from b (rdr s1) fs" by simp_all
    from run_step.IH [OF this run_step.prems(3,4)] consumer_recv show ?thesis by simp
  next
    case consumer_end
    with run_step.prems have "running s1" "frames_from b (rdr s1) fs" by simp_all
    from run_step.IH [OF this run_step.prems(3,4)] consumer_end show ?thesis by simp
  next
    case context_cancel
    then have "cancelled s1" by simp
    from run_cancelled [OF run_step.hyps(2) this] run_step.prems(4) show ?thesis by simp
  qed
qed

lemma producer_progress:
  assumes "running s" and "length (buf s) < chan_capacity"
  shows "\<exists>e s'. step b s e s' \<and> (e = ProducerReturns \<or> (\<exists>c. e = Send c))"
proof (cases "next_key b (rdr s)")
  case None
  with assms have "step b s ProducerReturns (s\<lparr>running := False\<rparr>)"
    by (simp add: producer_read_error)
  then show ?thesis by blast
next
  case (Some a)
  then obtain c nxt where "next_key b (rdr s) = Some (c, nxt)" by (cases a) simp
  with assms have "step b s (Send c) (s\<lparr>rdr := nxt, buf := buf s @ [c]\<rparr>)"
    by (simp add: producer_send)
  then show ?thesis by blast
qed

lemma step_sendI:
  "running s \<Longrightarrow> next_key b (rdr s) = Some (c, nxt) \<Longrightarrow> length (buf s) < chan_capacity
   \<Longrightarrow> s' = s\<lparr>rdr := nxt, buf := buf s @ [c]\<rparr> \<Longrightarrow> step b s (Send c) s'"
  by (simp add: producer_send)

lemma step_recvI:
  "buf s = c # rest \<Longrightarrow> s' = s\<lparr>buf := rest\<rparr> \<Longrightarrow> step b s (Recv c) s'"
  by (simp add: consumer_recv)

lemma step_read_errorI:
  "running s \<Longrightarrow> next_key b (rdr s) = None \<Longrightarrow> s' = s\<lparr>running := False\<rparr>
   \<Longrightarrow> step b s ProducerReturns s'"
  by (simp add: producer_read_error)

lemma step_cancelI: "s' = s\<lparr>cancelled := True\<rparr> \<Longrightarrow> step b s Cancel s'"
  by (simp add: context_cancel)

lemma next_key_ab:
  "next_key car_ab 18 = Some (cA, 26)" "next_key car_ab 26 = Some (cB, 35)"
  "next_key car_ab 35 = None"
  by (simp_all add: next_key_def reader_defs example_defs)

lemma AllKeysChan_ab:
  "AllKeysChan carv1_no_roots store_ab ctx_done
     = Inr \<lparr>rdr = 18, running = True, buf = [], closed = False, cancelled = ctx_done\<rparr>"
proof -
  have "ReadHeader carv1_no_roots (backing store_ab) = Inr (CarHeader [] 1)"
    unfolding store_ab_def ReadOnlyOf_def car_ab_def by (simp add: header_no_roots)
  then show ?thesis
    by (simp add: AllKeysChan_def header_no_roots(2))
qed

lemma backing_store_ab: "backing store_ab = car_ab"
  by (simp add: store_ab_def ReadOnlyOf_def)

lemma run_ab_eager:
  "run car_ab \<lparr>rdr = 18, running = True, buf = [], closed = False, cancelled = False\<rparr>
     [Send cA, Recv cA, Send cB, Recv cB, ProducerReturns]
     \<lparr>rdr = 35, running = False, buf = [], closed = False, cancelled = False\<rparr>"
proof -
  let ?s0 = "\<lparr>rdr = 18, running = True, buf = [], closed = False, cancelled = False\<rparr>"
  let ?s1 = "\<lparr>rdr = 26, running = True, buf = [cA], closed = False, cancelled = False\<rparr>"
  let ?s2 = "\<lparr>rdr = 26, running = True, buf = [], closed = False, cancelled = False\<rparr>"
  let ?s3 = "\<lparr>rdr = 35, running = True, buf = [cB], closed = False, cancelled = False\<rparr>"
  let ?s4 = "\<lparr>rdr = 35, running = True, buf = [], closed = False, cancelled = False\<rparr>"
  let ?s5 = "\<lparr>rdr = 35, running = False, buf = [], closed = False, cancelled = False\<rparr>"
  have 1: "step car_ab ?s0 (Send cA) ?s1"
    by (rule step_sendI [where nxt = 26]) (simp_all add: next_key_ab chan_capacity_def)
  have 2: "step car_ab ?s1 (Recv cA) ?s2"
    by (rule step_recvI [where rest = "[]"]) simp_all
  have 3: "step car_ab ?s2 (Send cB) ?s3"
    by (rule step_sendI [where nxt = 35]) (simp_all add: next_key_ab chan_capacity_def)
  have 4: "step car_ab ?s3 (Recv cB) ?s4"
    by (rule step_recvI [where rest = "[]"]) simp_all
  have 5: "step car_ab ?s4 ProducerReturns ?s5"
    by (rule step_read_errorI) (simp_all add: next_key_ab)
  from 1 2 3 4 5 show ?thesis
    by (blast intro: run.intros)
qed

lemma run_ab_lazy:
  "run car_ab \<lparr>rdr = 18, running = True, buf = [], closed = False, cancelled = False\<rparr>
     [Send cA, Send cB, ProducerReturns, Recv cA, Recv cB]
     \<lparr>rdr = 35, running = False, buf = [], closed = False, cancelled = False\<rparr>"
proof -
  let ?s0 = "\<lparr>rdr = 18, running = True, buf = [], closed = False, cancelled = False\<rparr>"
  let ?s1 = "\<lparr>rdr = 26, running = True, buf = [cA], closed = False, cancelled = False\<rparr>"
  let ?s2 = "\<lparr>rdr = 35, running = True, buf = [cA, cB], closed = False, cancelled = False\<rparr>"
  let ?s3 = "\<lparr>rdr = 35, running = False, buf = [cA, cB], closed = False, cancelled = False\<rparr>"
  let ?s4 = "\<lparr>rdr = 35, running = False, buf = [cB], closed = False, cancelled = False\<rparr>"
  let ?s5 = "\<lparr>rdr = 35, running = False, buf = [], closed = False, cancelled = False\<rparr>"
  have 1: "step car_ab ?s0 (Send cA) ?s1"
    by (rule step_sendI [where nxt = 26]) (simp_all add: next_key_ab chan_capacity_def)
  have 2: "step car_ab ?s1 (Send cB) ?s2"
    by (rule step_sendI [where nxt = 35]) (simp_all add: next_key_ab chan_capacity_def)
  have 3: "step car_ab ?s2 ProducerReturns ?s3"
    by (rule step_read_errorI) (simp_all add: next_key_ab)
  have 4: "step car_ab ?s3 (Recv cA) ?s4"
    by (rule step_recvI [where rest = "[cB]"]) simp_all
  have 5: "step car_ab ?s4 (Recv cB) ?s5"
    by (rule step_recvI [where rest = "[]"]) simp_all
  from 1 2 3 4 5 show ?thesis
    by (blast intro: run.intros)
qed

text \<open>
  C6, as stated, fails in its second half. On the example store, whose payload has the
  frames of \<open>cA\<close> and \<open>cB\<close>, the context is cancelled before the producer has sent
  anything, and the producer then sends both CIDs: at each \<open>select\<close> the send is ready
  because the buffer has room, and it may be chosen although the context is done.
\<close>

theorem AllKeysChan_cancel_counterexample:
  "AllKeysChan carv1_no_roots store_ab False
     = Inr \<lparr>rdr = 18, running = True, buf = [], closed = False, cancelled = False\<rparr>
   \<and> frames_from (backing store_ab) 18 [(18, cA, [0x61]), (26, cB, [0x62, 0x62])]
   \<and> run (backing store_ab)
        \<lparr>rdr = 18, running = True, buf = [], closed = False, cancelled = False\<rparr>
        [Cancel, Send cA, Send cB]
        \<lparr>rdr = 35, running = True, buf = [cA, cB], closed = False, cancelled = True\<rparr>"
proof -
  let ?s0 = "\<lparr>rdr = 18, running = True, buf = [], closed = False, cancelled = False\<rparr>"
  let ?s1 = "\<lparr>rdr = 18, running = True, buf = [], closed = False, cancelled = True\<rparr>"
  let ?s2 = "\<lparr>rdr = 26, running = True, buf = [cA], closed = False, cancelled = True\<rparr>"
  let ?s3 = "\<lparr>rdr = 35, running = True, buf = [cA, cB], closed = False, cancelled = True\<rparr>"
  have 1: "step car_ab ?s0 Cancel ?s1"
    by (rule step_cancelI) simp
  have 2: "step car_ab ?s1 (Send cA) ?s2"
    by (rule step_sendI [where nxt = 26]) (simp_all add: next_key_ab chan_capacity_def)
  have 3: "step car_ab ?s2 (Send cB) ?s3"
    by (rule step_sendI [where nxt = 35]) (simp_all add: next_key_ab chan_capacity_def)
  from 1 2 3 have "run car_ab ?s0 [Cancel, Send cA, Send cB] ?s3"
    by (blast intro: run.intros)
  with frames_ab show ?thesis
    by (simp add: AllKeysChan_ab backing_store_ab)
qed

text \<open>
  C6, amended. For every store over a payload whose header reads and whose frames from
  the first-frame offset are well formed up to the end, \<open>AllKeysChan\<close> returns a channel
  and in every run: the CIDs sent so far are a prefix of the CIDs of the frames in
  on-disk order; they reach the consumer first-in first-out through a buffer of at most
  5; when the producer has returned and the context is not cancelled, it has sent the
  CIDs of all the frames, and once the buffer is drained the consumer has received all
  of them in frame order; a running producer whose buffer has room can always either
  send or return; once the context is cancelled a running producer is able to return at
  its next \<open>select\<close>; and it cannot send into a full buffer. But while the buffer has
  room a cancelled producer may still send. There is a run in which the consumer takes
  every CID as soon as it is sent and receives all of them.
\<close>

theorem AllKeysChan_frame_order:
  assumes "ReadHeader pkg (backing b) = Inr header" and "HeaderSize pkg header = Inr offset"
    and "frames_from (backing b) offset fs"
  shows "\<exists>s0. AllKeysChan pkg b ctx_done = Inr s0
     \<and> (\<forall>es s. run (backing b) s0 es s \<longrightarrow>
           prefix (sends es) (map frame_cid fs)
           \<and> sends es = recvs es @ buf s
           \<and> length (buf s) \<le> chan_capacity
           \<and> (\<not> running s \<and> \<not> cancelled s \<longrightarrow> sends es = map frame_cid fs)
           \<and> (\<not> running s \<and> \<not> cancelled s \<and> buf s = [] \<longrightarrow> recvs es = map frame_cid fs)
           \<and> (running s \<and> length (buf s) < chan_capacity
                \<longrightarrow> (\<exists>e s'. step (backing b) s e s'
                         \<and> (e = ProducerReturns \<or> (\<exists>c. e = Send c))))
           \<and> (cancelled s \<and> running s
                \<longrightarrow> (\<exists>s'. step (backing b) s ProducerReturns s' \<and> \<not> running s'))
           \<and> (length (buf s) = chan_capacity
                \<longrightarrow> (\<forall>c s'. \<not> step (backing b) s (Send c) s')))
     \<and> (\<exists>s. run (backing b) s0 (eager_events (map frame_cid fs)) s
            \<and> recvs (eager_events (map frame_cid fs)) = map frame_cid fs)"
proof -
  let ?s0 = "\<lparr>rdr = offset, running = True, buf = [], closed = False, cancelled = ctx_done\<rparr>"
  have s0: "AllKeysChan pkg b ctx_done = Inr ?s0"
    using assms(1,2) by (simp add: AllKeysChan_def)
  have inv: "prefix (sends es) (map frame_cid fs) \<and> sends es = recvs es @ buf s
       \<and> length (buf s) \<le> chan_capacity
       \<and> (\<not> running s \<and> \<not> cancelled s \<longrightarrow> sends es = map frame_cid fs)
       \<and> (\<not> running s \<and> \<not> cancelled s \<and> buf s = [] \<longrightarrow> recvs es = map frame_cid fs)
       \<and> (running s \<and> length (buf s) < chan_capacity
             \<longrightarrow> (\<exists>e s'. step (backing b) s e s'
                      \<and> (e = ProducerReturns \<or> (\<exists>c. e = Send c))))
       \<and> (cancelled s \<and> running s
             \<longrightarrow> (\<exists>s'. step (backing b) s ProducerReturns s' \<and> \<not> running s'))
       \<and> (length (buf s) = chan_capacity \<longrightarrow> (\<forall>c s'. \<not> step (backing b) s (Send c) s'))"
    if r: "run (backing b) ?s0 es s" for es s
  proof -
    have 1: "prefix (sends es) (map frame_cid fs)"
      by (rule run_sends_prefix [OF r]) (simp add: assms(3))
    have 2: "sends es = recvs es @ buf s"
      using run_fifo [OF r] by simp
    have 3: "length (buf s) \<le> chan_capacity"
      by (rule run_capacity [OF r]) simp
    have 4: "sends es = map frame_cid fs" if "\<not> running s" "\<not> cancelled s"
      by (rule run_uncancelled_complete [OF r _ _ that]) (simp_all add: assms(3))
    have 5: "recvs es = map frame_cid fs" if "\<not> running s" "\<not> cancelled s" "buf s = []"
      using 4 [OF that(1,2)] 2 that(3) by simp
    have 6: "\<exists>e s'. step (backing b) s e s' \<and> (e = ProducerReturns \<or> (\<exists>c. e = Send c))"
      if "running s" "length (buf s) < chan_capacity"
      using that by (rule producer_progress)
    have 7: "\<exists>s'. step (backing b) s ProducerReturns s' \<and> \<not> running s'"
      if "cancelled s" "running s"
      using that(2,1) by (rule producer_can_return)
    have 8: "\<forall>c s'. \<not> step (backing b) s (Send c) s'" if "length (buf s) = chan_capacity"
      using that by (simp add: no_send_when_full)
    from 1 2 3 4 5 6 7 8 show ?thesis by blast
  qed
  from eager_run [OF assms(3), of ?s0] obtain s where
    "run (backing b) ?s0 (eager_events (map frame_cid fs)) s" by auto
  then have "\<exists>s. run (backing b) ?s0 (eager_events (map frame_cid fs)) s
            \<and> recvs (eager_events (map frame_cid fs)) = map frame_cid fs"
    by (auto simp only: recvs_eager)
  with s0 inv show ?thesis
    by blast
qed

theorem AllKeysChan_frame_order_witness:
  "\<exists>s0 s. AllKeysChan carv1_no_roots store_ab False = Inr s0
     \<and> run (backing store_ab) s0 [Send cA, Recv cA, Send cB, Recv cB, ProducerReturns] s
     \<and> prefix [cA, cB] (map frame_cid [(18, cA, [0x61]), (26, cB, [0x62, 0x62])])
     \<and> buf s = []
     \<and> recvs [Send cA, Send cB, ProducerReturns, Recv cA, Recv cB]
          = map frame_cid [(18, cA, [0x61]), (26, cB, [0x62, 0x62])]"
proof -
  let ?fs = "[(18, cA, [0x61]), (26, cB, [0x62, 0x62])]"
  let ?s5 = "\<lparr>rdr = 35, running = False, buf = [], closed = False, cancelled = False\<rparr>"
  have h: "ReadHeader carv1_no_roots (backing store_ab) = Inr (CarHeader [] 1)"
    unfolding backing_store_ab car_ab_def by (rule header_no_roots)
  have f: "frames_from (backing store_ab) 18 ?fs"
    unfolding backing_store_ab by (rule frames_ab)
  from AllKeysChan_frame_order [OF h header_no_roots(2) f, of False] obtain s0 s where
    s0: "AllKeysChan carv1_no_roots store_ab False = Inr s0"
    and inv: "\<And>es s. run (backing store_ab) s0 es s \<Longrightarrow>
           prefix (sends es) (map frame_cid ?fs)
           \<and> sends es = recvs es @ buf s
           \<and> (\<not> running s \<and> \<not> cancelled s \<and> buf s = [] \<longrightarrow> recvs es = map frame_cid ?fs)"
    and r: "run (backing store_ab) s0 (eager_events (map frame_cid ?fs)) s"
    by blast
  from r have r': "run (backing store_ab) s0 [Send cA, Recv cA, Send cB, Recv cB, ProducerReturns] s"
    by (simp add: frame_cid_def)
  from inv [OF r'] have a: "prefix [cA, cB] (map frame_cid ?fs)" and b: "buf s = []"
    by simp_all
  from s0 have "s0 = \<lparr>rdr = 18, running = True, buf = [], closed = False, cancelled = False\<rparr>"
    by (simp add: AllKeysChan_ab)
  with run_ab_lazy
  have "run (backing store_ab) s0 [Send cA, Send cB, ProducerReturns, Recv cA, Recv cB] ?s5"
    by (simp add: backing_store_ab)
  from inv [OF this]
  have c: "recvs [Send cA, Send cB, ProducerReturns, Recv cA, Recv cB] = map frame_cid ?fs"
    by simp
  from s0 r' a b c show ?thesis by blast
qed

text \<open>
  C9. In every run of the channel that \<open>AllKeysChan\<close> returns, whatever the payload,
  the channel is never closed and the consumer never observes the end of the sequence,
  however the producer returned (end of payload, read error, cancellation). Once the
  producer has returned and the buffer is drained, no receive can ever complete: the
  only events that remain possible are cancellations of the context.
\<close>

theorem AllKeysChan_never_closes:
  assumes "AllKeysChan pkg b ctx_done = Inr s0" and "run (backing b) s0 es s"
  shows "\<not> closed s \<and> EndOfSequence \<notin> set es
       \<and> (\<not> running s \<and> buf s = []
            \<longrightarrow> (\<forall>es' s'. run (backing b) s es' s' \<longrightarrow> set es' \<subseteq> {Cancel}))"
proof -
  from assms(1) have "\<not> closed s0"
    by (auto simp: AllKeysChan_def split: sum.splits)
  from run_not_closed [OF assms(2) this] have nc: "\<not> closed s" "EndOfSequence \<notin> set es"
    by simp_all
  have "set es' \<subseteq> {Cancel}"
    if "\<not> running s" "buf s = []" "run (backing b) s es' s'" for es' s'
    using blocked_consumer [OF that(1,2) nc(1) that(3)] by simp
  with nc show ?thesis by blast
qed

theorem AllKeysChan_never_closes_witness:
  "\<not> closed \<lparr>rdr = 35, running = False, buf = [], closed = False, cancelled = False\<rparr>
   \<and> EndOfSequence \<notin> set [Send cA, Recv cA, Send cB, Recv cB, ProducerReturns]
   \<and> (\<forall>c s'. \<not> run (backing store_ab)
          \<lparr>rdr = 35, running = False, buf = [], closed = False, cancelled = False\<rparr>
          [Recv c] s')
   \<and> (\<forall>s'. \<not> run (backing store_ab)
          \<lparr>rdr = 35, running = False, buf = [], closed = False, cancelled = False\<rparr>
          [EndOfSequence] s')"
proof -
  have r: "run (backing store_ab)
      \<lparr>rdr = 18, running = True, buf = [], closed = False, cancelled = False\<rparr>
      [Send cA, Recv cA, Send cB, Recv cB, ProducerReturns]
      \<lparr>rdr = 35, running = False, buf = [], closed = False, cancelled = False\<rparr>"
    unfolding backing_store_ab by (rule run_ab_eager)
  from AllKeysChan_never_closes [OF AllKeysChan_ab [of False] r] show ?thesis
    by fastforce
qed

end
